theory Spec2Isabelle
  imports Complex_Main
begin

section \<open>Keyframe splines of \<open>src/geometry/spline.h\<close>\<close>

text \<open>
  The header declares the generic class \<open>Spline<T>\<close>, its two full specialisations
  \<open>Spline<Quat>\<close> and \<open>Spline<bool>\<close>, and the variadic aggregate \<open>Splines<T, Ts...>\<close>
  with its one-channel base case \<open>Splines<T>\<close>.

  Modelling decisions.
  \<^item> Time is the C++ \<open>float\<close>; a knot time or query time is modelled as a \<open>real\<close> (the
    data model of the specification: "time: real number"), so infinite and NaN times are
    outside the model. The one arithmetic expression on times, line 116 of
    \<open>Spline<Quat>::at\<close>, is modelled twice: exactly in \<open>Spline_Quat_at\<close>, and in binary32
    with overflow, infinities and NaN in \<open>Spline_Quat_at_float\<close>.
  \<^item> \<open>std::map<float, T>\<close> is an association list whose keys are strictly increasing
    (\<open>ordered\<close>); iterators are positions in that list, \<open>begin()\<close> is \<open>0\<close> and
    \<open>end()\<close> is the length.
  \<^item> \<open>std::set<float>\<close> is a \<open>real set\<close>.
  \<^item> \<open>Quat\<close>, its default constructor and \<open>slerp\<close> are defined in \<open>lib/mathlib.h\<close>,
    not in this header: the rotation type is a type variable, \<open>Quat()\<close> and \<open>slerp\<close> are
    parameters of \<open>Spline_Quat_at\<close>.
\<close>

subsection \<open>\<open>std::map<float, T>\<close>\<close>

type_synonym 'v knots = "(real \<times> 'v) list"

definition ordered :: "'v knots \<Rightarrow> bool" where
  "ordered m = sorted_wrt (<) (map fst m)"

text \<open>\<open>m[time] = value\<close>: insert at the key's place, or overwrite the mapped value of
  an equivalent key (neither \<open>time < k\<close> nor \<open>k < time\<close>).\<close>

fun map_assign :: "real \<Rightarrow> 'v \<Rightarrow> 'v knots \<Rightarrow> 'v knots" where
  "map_assign time val [] = [(time, val)]"
| "map_assign time val ((k, w) # m) =
     (if time < k then (time, val) # (k, w) # m
      else if k < time then (k, w) # map_assign time val m
      else (k, val) # m)"

text \<open>\<open>m.erase(time)\<close>: erase by key.\<close>

fun map_erase :: "real \<Rightarrow> 'v knots \<Rightarrow> 'v knots" where
  "map_erase time [] = []"
| "map_erase time ((k, w) # m) =
     (if k < time then (k, w) # map_erase time m
      else if time < k then (k, w) # m
      else m)"

text \<open>\<open>m.count(t)\<close>: the number of entries with a key equivalent to \<open>t\<close>.\<close>

definition map_count :: "real \<Rightarrow> 'v knots \<Rightarrow> nat" where
  "map_count t m = length (filter (\<lambda>e. \<not> fst e < t \<and> \<not> t < fst e) m)"

text \<open>\<open>m.lower_bound(t)\<close>: the first position whose key is not less than \<open>t\<close>;
  \<open>m.upper_bound(t)\<close>: the first position whose key is greater than \<open>t\<close>.\<close>

definition lower_bound :: "real \<Rightarrow> 'v knots \<Rightarrow> nat" where
  "lower_bound t m = length (takeWhile (\<lambda>e. fst e < t) m)"

definition upper_bound :: "real \<Rightarrow> 'v knots \<Rightarrow> nat" where
  "upper_bound t m = length (takeWhile (\<lambda>e. \<not> t < fst e) m)"

text \<open>\<open>m.erase(first, last)\<close>: erase the positions \<open>[first, last)\<close>.\<close>

definition erase_range :: "nat \<Rightarrow> nat \<Rightarrow> 'v knots \<Rightarrow> 'v knots" where
  "erase_range first last' m = take first m @ drop last' m"

subsection \<open>\<open>Spline<T>\<close>: the members shared by the generic class and both specialisations\<close>

text \<open>
  The class has one data member, the map (\<open>control_points\<close> in the generic class,
  \<open>values\<close> in the specialisations). \<open>set\<close>, \<open>erase\<close>, \<open>has\<close>, \<open>any\<close>, \<open>clear\<close>,
  \<open>crop\<close> and \<open>keys\<close> have the same body in all three classes, so one polymorphic
  definition stands for each.
\<close>

type_synonym 'v Spline = "'v knots"

definition Spline_new :: "'v Spline" where
  "Spline_new = []"

definition Spline_set :: "real \<Rightarrow> 'v \<Rightarrow> 'v Spline \<Rightarrow> 'v Spline" where
  "Spline_set time val control_points = map_assign time val control_points"

definition Spline_erase :: "real \<Rightarrow> 'v Spline \<Rightarrow> 'v Spline" where
  "Spline_erase time control_points = map_erase time control_points"

definition Spline_has :: "real \<Rightarrow> 'v Spline \<Rightarrow> bool" where
  "Spline_has t control_points = (map_count t control_points \<noteq> 0)"

definition Spline_any :: "'v Spline \<Rightarrow> bool" where
  "Spline_any control_points = (\<not> (control_points = []))"

definition Spline_clear :: "'v Spline \<Rightarrow> 'v Spline" where
  "Spline_clear control_points = []"

definition Spline_crop :: "real \<Rightarrow> 'v Spline \<Rightarrow> 'v Spline" where
  "Spline_crop t control_points =
     (let e = lower_bound t control_points
      in erase_range e (length control_points) control_points)"

definition Spline_keys :: "'v Spline \<Rightarrow> real set" where
  "Spline_keys control_points = fold (\<lambda>e ret. insert (fst e) ret) control_points {}"

subsection \<open>\<open>Spline<Quat>::at\<close> and \<open>Spline<bool>::at\<close>\<close>

definition Spline_Quat_at ::
  "'q \<Rightarrow> ('q \<Rightarrow> 'q \<Rightarrow> real \<Rightarrow> 'q) \<Rightarrow> 'q Spline \<Rightarrow> real \<Rightarrow> 'q" where
  "Spline_Quat_at Quat0 slerp vals time =
     (if vals = [] then Quat0
      else if length vals = 1 then snd (vals ! 0)
      else if fst (vals ! 0) > time then snd (vals ! 0)
      else let k2 = upper_bound time vals in
        if k2 = length vals then snd (vals ! (length vals - 1))
        else let k1 = k2 - 1;
                 t = (time - fst (vals ! k1)) / (fst (vals ! k2) - fst (vals ! k1))
             in slerp (snd (vals ! k1)) (snd (vals ! k2)) t)"

definition Spline_bool_at :: "bool Spline \<Rightarrow> real \<Rightarrow> bool" where
  "Spline_bool_at vals time =
     (if vals = [] then False
      else if length vals = 1 then snd (vals ! 0)
      else if fst (vals ! 0) > time then snd (vals ! 0)
      else let k2 = upper_bound time vals in
        if k2 = length vals then snd (vals ! (length vals - 1))
        else snd (vals ! (k2 - 1)))"

subsection \<open>Line 116 of \<open>Spline<Quat>::at\<close> in \<open>float\<close> arithmetic\<close>










subsection \<open>The generic \<open>Spline<T>::at\<close>\<close>



subsection \<open>\<open>Splines<T, Ts...>\<close> and \<open>Splines<T>\<close>\<close>

text \<open>
  \<open>Splines<T>\<close> has the member \<open>head\<close>; \<open>Splines<T, Ts...>\<close> has \<open>head\<close> and
  \<open>tail\<close>, a \<open>Splines<Ts...>\<close>. The value types of the channels are embedded in one
  type \<open>'v\<close> (for channels of different types, their sum): no member of \<open>Splines\<close>
  inspects a value. The arguments of \<open>set\<close> and the tuple returned by \<open>at\<close> are lists
  in channel order. A call of \<open>set\<close> whose number of values differs from the number of
  channels is rejected by the C++ compiler; the model returns \<open>None\<close> for it.

  \<open>head.at(t)\<close> is resolved by the channel's value type at compile time. The model of
  \<open>Splines::at\<close> receives the resolved member functions as \<open>ats\<close>: \<open>ats i\<close> is the
  \<open>at\<close> of channel \<open>i\<close>.
\<close>

datatype 'v Splines = Splines1 "'v Spline" | SplinesN "'v Spline" "'v Splines"

text \<open>A default-constructed aggregate of \<open>n + 1\<close> channels: every map is empty.\<close>

fun Splines_new :: "nat \<Rightarrow> 'v Splines" where
  "Splines_new 0 = Splines1 Spline_new"
| "Splines_new (Suc n) = SplinesN Spline_new (Splines_new n)"

fun Splines_set :: "real \<Rightarrow> 'v list \<Rightarrow> 'v Splines \<Rightarrow> 'v Splines option" where
  "Splines_set t [arg] (Splines1 head) = Some (Splines1 (Spline_set t arg head))"
| "Splines_set t (arg # args) (SplinesN head tail) =
     (case Splines_set t args tail of
        None \<Rightarrow> None
      | Some tail' \<Rightarrow> Some (SplinesN (Spline_set t arg head) tail'))"
| "Splines_set t args s = None"

fun Splines_erase :: "real \<Rightarrow> 'v Splines \<Rightarrow> 'v Splines" where
  "Splines_erase t (Splines1 head) = Splines1 (Spline_erase t head)"
| "Splines_erase t (SplinesN head tail) = SplinesN (Spline_erase t head) (Splines_erase t tail)"

fun Splines_any :: "'v Splines \<Rightarrow> bool" where
  "Splines_any (Splines1 head) = Spline_any head"
| "Splines_any (SplinesN head tail) = (Spline_any head \<or> Splines_any tail)"

fun Splines_has :: "real \<Rightarrow> 'v Splines \<Rightarrow> bool" where
  "Splines_has t (Splines1 head) = Spline_has t head"
| "Splines_has t (SplinesN head tail) = (Spline_has t head \<or> Splines_has t tail)"

fun Splines_clear :: "'v Splines \<Rightarrow> 'v Splines" where
  "Splines_clear (Splines1 head) = Splines1 (Spline_clear head)"
| "Splines_clear (SplinesN head tail) = SplinesN (Spline_clear head) (Splines_clear tail)"

fun Splines_crop :: "real \<Rightarrow> 'v Splines \<Rightarrow> 'v Splines" where
  "Splines_crop t (Splines1 head) = Splines1 (Spline_crop t head)"
| "Splines_crop t (SplinesN head tail) = SplinesN (Spline_crop t head) (Splines_crop t tail)"

text \<open>\<open>rest.insert(first.begin(), first.end())\<close> adds every element of \<open>first\<close> to
  \<open>rest\<close>.\<close>

fun Splines_keys :: "'v Splines \<Rightarrow> real set" where
  "Splines_keys (Splines1 head) = Spline_keys head"
| "Splines_keys (SplinesN head tail) =
     (let first = Spline_keys head; rest = Splines_keys tail in rest \<union> first)"

fun Splines_at :: "(nat \<Rightarrow> 'v Spline \<Rightarrow> real \<Rightarrow> 'v) \<Rightarrow> 'v Splines \<Rightarrow> real \<Rightarrow> 'v list" where
  "Splines_at ats (Splines1 head) t = [ats 0 head t]"
| "Splines_at ats (SplinesN head tail) t = [ats 0 head t] @ Splines_at (\<lambda>i. ats (Suc i)) tail t"

subsection \<open>Vocabulary of the statements\<close>

text \<open>The channels of an aggregate, in channel order.\<close>

fun channels :: "'v Splines \<Rightarrow> 'v Spline list" where
  "channels (Splines1 head) = [head]"
| "channels (SplinesN head tail) = head # channels tail"

text \<open>A call of one of the four public mutating members of \<open>Splines\<close>, and a sequence of
  such calls on an aggregate. \<open>head\<close> and \<open>tail\<close> are private, so these calls are the
  only way a client changes the channels.\<close>

datatype 'v call = Set real "'v list" | Erase real | Clear | Crop real

text \<open>The calls the compiler accepts on an aggregate of \<open>n\<close> channels: \<open>set\<close> takes
  exactly \<open>n\<close> values after the time.\<close>

fun accepted :: "nat \<Rightarrow> 'v call \<Rightarrow> bool" where
  "accepted n (Set t args) = (length args = n)"
| "accepted n (Erase t) = True"
| "accepted n Clear = True"
| "accepted n (Crop t) = True"

fun apply_call :: "'v call \<Rightarrow> 'v Splines \<Rightarrow> 'v Splines option" where
  "apply_call (Set t args) s = Splines_set t args s"
| "apply_call (Erase t) s = Some (Splines_erase t s)"
| "apply_call Clear s = Some (Splines_clear s)"
| "apply_call (Crop t) s = Some (Splines_crop t s)"

fun run :: "'v call list \<Rightarrow> 'v Splines \<Rightarrow> 'v Splines option" where
  "run [] s = Some s"
| "run (c # cs) s = (case apply_call c s of None \<Rightarrow> None | Some s' \<Rightarrow> run cs s')"

text \<open>All channels hold the same sequence of knot times.\<close>

definition same_times :: "'v Splines \<Rightarrow> bool" where
  "same_times s \<longleftrightarrow>
     (\<forall>c \<in> set (channels s). \<forall>c' \<in> set (channels s). map fst c = map fst c')"

text \<open>The value stored under a key: what an iterator obtained from \<open>find\<close> reads.\<close>

definition knot_value :: "real \<Rightarrow> 'v knots \<Rightarrow> 'v option" where
  "knot_value t m = map_of m t"

text \<open>A concrete interpolation for the examples: linear interpolation on \<open>real\<close>,
  standing in for \<open>slerp\<close> of \<open>lib/mathlib.h\<close>. It returns its first argument at
  parameter \<open>0\<close> and its second at parameter \<open>1\<close>.\<close>

definition lerp :: "real \<Rightarrow> real \<Rightarrow> real \<Rightarrow> real" where
  "lerp a b u = (1 - u) * a + u * b"

section \<open>The map operations on ordered lists\<close>

lemma ordered_Nil: "ordered []"
  by (simp add: ordered_def)

lemma ordered_Cons:
  "ordered ((k, w) # m) \<longleftrightarrow> (\<forall>e \<in> set m. k < fst e) \<and> ordered m"
  by (auto simp: ordered_def)

lemma keys_map_assign: "set (map fst (map_assign t v m)) = insert t (set (map fst m))"
proof (induction m)
  case Nil show ?case by simp
next
  case (Cons e m)
  obtain k w where e: "e = (k, w)" by (cases e)
  have "\<not> t < k \<Longrightarrow> \<not> k < t \<Longrightarrow> k = t" by simp
  with Cons.IH show ?case
    by (cases "t < k"; cases "k < t") (simp_all add: e insert_commute)
qed

lemma ordered_map_assign: "ordered m \<Longrightarrow> ordered (map_assign t v m)"
proof (induction m)
  case Nil
  show ?case by (simp add: ordered_def)
next
  case (Cons e m)
  obtain k w where e: "e = (k, w)" by (cases e)
  from Cons.prems have below: "\<forall>x \<in> set m. k < fst x" and om: "ordered m"
    by (simp_all add: e ordered_Cons)
  show ?case
  proof (cases "t < k")
    case True
    with below om show ?thesis
      by (auto simp: e ordered_Cons)
  next
    case False
    show ?thesis
    proof (cases "k < t")
      case True
      have "\<forall>x \<in> set (map_assign t v m). k < fst x"
      proof
        fix x assume "x \<in> set (map_assign t v m)"
        then have "fst x \<in> set (map fst (map_assign t v m))" by simp
        then have "fst x \<in> insert t (set (map fst m))"
          by (simp only: keys_map_assign)
        with True below show "k < fst x" by auto
      qed
      with Cons.IH [OF om] True False show ?thesis
        by (simp add: e ordered_Cons)
    next
      case False
      with \<open>\<not> t < k\<close> below om show ?thesis
        by (simp add: e ordered_Cons)
    qed
  qed
qed

lemma map_erase_filter: "ordered m \<Longrightarrow> map_erase t m = filter (\<lambda>e. fst e \<noteq> t) m"
proof (induction m)
  case Nil show ?case by simp
next
  case (Cons e m)
  obtain k w where e: "e = (k, w)" by (cases e)
  from Cons.prems have below: "\<forall>x \<in> set m. k < fst x" and om: "ordered m"
    by (simp_all add: e ordered_Cons)
  have rest: "\<not> k < t \<Longrightarrow> filter (\<lambda>e. fst e \<noteq> t) m = m"
    using below by (intro filter_True) auto
  show ?case using Cons.IH [OF om] rest by (auto simp: e)
qed

lemma ordered_filter: "ordered m \<Longrightarrow> ordered (filter P m)"
  unfolding ordered_def by (induction m) auto

lemma lower_bound_takeWhile: "take (lower_bound t m) m = takeWhile (\<lambda>e. fst e < t) m"
  unfolding lower_bound_def by (induction m) auto

lemma takeWhile_filter_ordered:
  "ordered m \<Longrightarrow> takeWhile (\<lambda>e. fst e < t) m = filter (\<lambda>e. fst e < t) m"
proof (induction m)
  case Nil show ?case by simp
next
  case (Cons e m)
  obtain k w where e: "e = (k, w)" by (cases e)
  from Cons.prems have below: "\<forall>x \<in> set m. k < fst x" and om: "ordered m"
    by (simp_all add: e ordered_Cons)
  have "\<not> k < t \<Longrightarrow> filter (\<lambda>e. fst e < t) m = []"
    using below by (auto simp: filter_empty_conv)
  with Cons.IH [OF om] show ?case by (auto simp: e)
qed

lemma Spline_crop_filter: "ordered m \<Longrightarrow> Spline_crop t m = filter (\<lambda>e. fst e < t) m"
  by (simp add: Spline_crop_def erase_range_def lower_bound_takeWhile takeWhile_filter_ordered)

lemma Spline_keys_eq: "Spline_keys m = set (map fst m)"
proof -
  have "fold (\<lambda>e ret. insert (fst e) ret) m A = set (map fst m) \<union> A" for A
    by (induction m arbitrary: A) auto
  then show ?thesis by (simp add: Spline_keys_def)
qed


lemma ordered_nth_less:
  "ordered m \<Longrightarrow> i < j \<Longrightarrow> j < length m \<Longrightarrow> fst (m ! i) < fst (m ! j)"
  unfolding ordered_def by (simp add: sorted_wrt_iff_nth_less)

lemma ordered_nth_le:
  "ordered m \<Longrightarrow> i \<le> j \<Longrightarrow> j < length m \<Longrightarrow> fst (m ! i) \<le> fst (m ! j)"
  using ordered_nth_less [of m i j] by (cases "i = j") auto

lemma upper_bound_le: "upper_bound t m \<le> length m"
  by (simp add: upper_bound_def length_takeWhile_le)

lemma upper_bound_before: "i < upper_bound t m \<Longrightarrow> fst (m ! i) \<le> t"
proof -
  assume "i < upper_bound t m"
  then have i: "i < length (takeWhile (\<lambda>e. \<not> t < fst e) m)"
    by (simp add: upper_bound_def)
  then have "takeWhile (\<lambda>e. \<not> t < fst e) m ! i \<in> set (takeWhile (\<lambda>e. \<not> t < fst e) m)"
    by (rule nth_mem)
  then have "\<not> t < fst (takeWhile (\<lambda>e. \<not> t < fst e) m ! i)"
    by (rule set_takeWhileD [THEN conjunct2])
  with i show ?thesis by (simp add: takeWhile_nth)
qed

lemma upper_bound_at: "upper_bound t m < length m \<Longrightarrow> t < fst (m ! upper_bound t m)"
  unfolding upper_bound_def using nth_length_takeWhile [of "\<lambda>e. \<not> t < fst e" m] by simp

lemma upper_bound_after:
  assumes "ordered m" "i < length m" "fst (m ! i) \<le> t"
  shows "i < upper_bound t m"
proof -
  have "\<And>j. j < Suc i \<Longrightarrow> \<not> t < fst (m ! j)"
  proof -
    fix j assume "j < Suc i"
    then have "fst (m ! j) \<le> fst (m ! i)"
      using ordered_nth_le [OF assms(1), of j i] assms(2) by simp
    with assms(3) show "\<not> t < fst (m ! j)" by simp
  qed
  then have "Suc i \<le> length (takeWhile (\<lambda>e. \<not> t < fst e) m)"
    using assms(2) by (intro length_takeWhile_less_P_nth) auto
  then show ?thesis by (simp add: upper_bound_def)
qed

lemma upper_bound_knot:
  assumes "ordered m" "i < length m" "fst (m ! i) = t"
  shows "upper_bound t m = Suc i"
proof -
  have lo: "i < upper_bound t m"
    using upper_bound_after [OF assms(1,2)] assms(3) by simp
  have "\<not> Suc i < upper_bound t m"
  proof
    assume h: "Suc i < upper_bound t m"
    then have "fst (m ! Suc i) \<le> t" by (rule upper_bound_before)
    moreover have "Suc i < length m" using h upper_bound_le [of t m] by simp
    then have "fst (m ! i) < fst (m ! Suc i)"
      using ordered_nth_less [OF assms(1), of i "Suc i"] by simp
    ultimately show False using assms(3) by simp
  qed
  with lo show ?thesis by simp
qed

lemma upper_bound_pos:
  assumes "m \<noteq> []" "\<not> t < fst (m ! 0)"
  shows "0 < upper_bound t m"
  using assms by (cases m) (auto simp: upper_bound_def)

lemma upper_bound_end:
  assumes "ordered m" "m \<noteq> []"
  shows "upper_bound t m = length m \<longleftrightarrow> fst (last m) \<le> t"
proof
  assume "upper_bound t m = length m"
  then have "length m - 1 < upper_bound t m" using assms(2) by simp
  then have "fst (m ! (length m - 1)) \<le> t" by (rule upper_bound_before)
  then show "fst (last m) \<le> t" using assms(2) by (simp add: last_conv_nth)
next
  assume "fst (last m) \<le> t"
  then have "fst (m ! (length m - 1)) \<le> t" using assms(2) by (simp add: last_conv_nth)
  then have "length m - 1 < upper_bound t m"
    using upper_bound_after [OF assms(1), of "length m - 1" t] assms(2) by simp
  with upper_bound_le [of t m] show "upper_bound t m = length m" by simp
qed


lemma upper_bound_interior:
  assumes "ordered m" "m \<noteq> []" "\<not> t < fst (m ! 0)" "t < fst (last m)"
  shows "0 < upper_bound t m" and "upper_bound t m < length m"
    and "fst (m ! (upper_bound t m - 1)) \<le> t" and "t < fst (m ! upper_bound t m)"
proof -
  show pos: "0 < upper_bound t m" using assms(2,3) by (rule upper_bound_pos)
  have "upper_bound t m \<noteq> length m"
    using upper_bound_end [OF assms(1,2), of t] assms(4) by simp
  with upper_bound_le [of t m] show lt: "upper_bound t m < length m" by simp
  from pos show "fst (m ! (upper_bound t m - 1)) \<le> t"
    by (intro upper_bound_before) simp
  from lt show "t < fst (m ! upper_bound t m)" by (rule upper_bound_at)
qed

lemma Spline_bool_at_first: "m \<noteq> [] \<Longrightarrow> t < fst (m ! 0) \<Longrightarrow> Spline_bool_at m t = snd (m ! 0)"
  by (simp add: Spline_bool_at_def)

lemma Spline_bool_at_step:
  assumes "ordered m" "m \<noteq> []" "\<not> t < fst (m ! 0)"
  shows "Spline_bool_at m t = snd (m ! (upper_bound t m - 1))"
proof (cases "length m = 1")
  case True
  with assms(2,3) upper_bound_pos [of m t] upper_bound_le [of t m]
  have "upper_bound t m = 1" by simp
  with True assms(2) show ?thesis by (simp add: Spline_bool_at_def)
next
  case False
  with assms(2,3) show ?thesis by (simp add: Spline_bool_at_def Let_def)
qed


lemma Spline_bool_at_knot:
  assumes "ordered m" "i < length m"
  shows "Spline_bool_at m (fst (m ! i)) = snd (m ! i)"
proof -
  from assms(2) have ne: "m \<noteq> []" by auto
  have "fst (m ! 0) \<le> fst (m ! i)"
    using ordered_nth_le [OF assms(1), of 0 i] assms(2) by simp
  then have "\<not> fst (m ! i) < fst (m ! 0)" by simp
  from Spline_bool_at_step [OF assms(1) ne this]
    upper_bound_knot [OF assms(1,2) refl]
  show ?thesis by simp
qed


lemma Spline_Quat_at_last:
  assumes "ordered m" "m \<noteq> []" "fst (last m) \<le> t"
  shows "Spline_Quat_at Quat0 slerp m t = snd (last m)"
proof -
  have ub: "upper_bound t m = length m"
    using upper_bound_end [OF assms(1,2)] assms(3) by simp
  have "fst (m ! 0) \<le> fst (m ! (length m - 1))"
    using ordered_nth_le [OF assms(1), of 0 "length m - 1"] assms(2) by simp
  with assms(2,3) have "\<not> t < fst (m ! 0)" by (simp add: last_conv_nth)
  with ub assms(2) show ?thesis
    by (simp add: Spline_Quat_at_def last_conv_nth)
qed

lemma Spline_Quat_at_interior:
  assumes "ordered m" "2 \<le> length m" "\<not> t < fst (m ! 0)" "t < fst (last m)"
  shows "Spline_Quat_at Quat0 slerp m t =
           slerp (snd (m ! (upper_bound t m - 1))) (snd (m ! upper_bound t m))
             ((t - fst (m ! (upper_bound t m - 1))) /
              (fst (m ! upper_bound t m) - fst (m ! (upper_bound t m - 1))))"
proof -
  from assms(2) have ne: "m \<noteq> []" by auto
  have "upper_bound t m \<noteq> length m"
    using upper_bound_interior(2) [OF assms(1) ne assms(3,4)] by simp
  with assms(2,3) ne show ?thesis
    by (simp add: Spline_Quat_at_def Let_def)
qed

lemma Spline_Quat_at_knot:
  assumes "ordered m" "i < length m" and slerp0: "\<And>b. slerp (snd (m ! i)) b 0 = snd (m ! i)"
  shows "Spline_Quat_at Quat0 slerp m (fst (m ! i)) = snd (m ! i)"
proof (cases "Suc i = length m")
  case True
  then have ne: "m \<noteq> []" by auto
  from True have "length m - 1 = i" by simp
  with ne have "fst (last m) \<le> fst (m ! i)" "m \<noteq> []" "last m = m ! i"
    by (simp_all add: last_conv_nth)
  with Spline_Quat_at_last [OF assms(1), of "fst (m ! i)" Quat0 slerp] show ?thesis
    by simp
next
  case False
  with assms(2) have len: "2 \<le> length m" and nxt: "Suc i < length m" by auto
  have ub: "upper_bound (fst (m ! i)) m = Suc i"
    by (rule upper_bound_knot [OF assms(1,2) refl])
  have "fst (m ! 0) \<le> fst (m ! i)"
    using ordered_nth_le [OF assms(1), of 0 i] assms(2) by simp
  then have lo: "\<not> fst (m ! i) < fst (m ! 0)" by simp
  have "fst (m ! i) < fst (m ! (length m - 1))"
    using ordered_nth_less [OF assms(1), of i "length m - 1"] nxt by simp
  moreover from nxt have "m \<noteq> []" by auto
  ultimately have hi: "fst (m ! i) < fst (last m)"
    by (simp add: last_conv_nth)
  from Spline_Quat_at_interior [OF assms(1) len lo hi, of Quat0 slerp] ub slerp0
  show ?thesis by simp
qed

lemma ordered_first_least:
  assumes "ordered m" "e \<in> set m"
  shows "fst (m ! 0) \<le> fst e"
proof -
  from assms(2) obtain i where "i < length m" "m ! i = e"
    by (auto simp: in_set_conv_nth)
  with ordered_nth_le [OF assms(1), of 0 i] show ?thesis by auto
qed

lemma ordered_last_greatest:
  assumes "ordered m" "e \<in> set m"
  shows "fst e \<le> fst (last m)"
proof -
  from assms(2) obtain i where i: "i < length m" "m ! i = e"
    by (auto simp: in_set_conv_nth)
  then have "m \<noteq> []" by auto
  with ordered_nth_le [OF assms(1), of i "length m - 1"] i show ?thesis
    by (auto simp: last_conv_nth)
qed



section \<open>The claims\<close>

text \<open>
  Every state of a spline that a client can build is an \<open>ordered\<close> list, and every
  \<open>ordered\<close> list is such a state (\<open>ordered_reachable\<close> below), so "for every spline"
  is "for every \<open>ordered\<close> list". On an \<open>ordered\<close> non-empty list the smallest knot is
  the one at position \<open>0\<close> and the largest is the \<open>last\<close> one
  (\<open>ordered_first_least\<close>, \<open>ordered_last_greatest\<close>).
\<close>




subsection \<open>The mutating members keep the map ordered, and reach every ordered map\<close>

lemma ordered_distinct: "ordered m \<Longrightarrow> distinct (map fst m)"
  unfolding ordered_def by (simp add: strict_sorted_iff)

lemma map_count_eq: "map_count t m = length (filter (\<lambda>e. fst e = t) m)"
proof -
  have "(\<lambda>e::real \<times> 'a. \<not> fst e < t \<and> \<not> t < fst e) = (\<lambda>e. fst e = t)"
    by auto
  then show ?thesis by (simp add: map_count_def)
qed

lemma map_count_ordered:
  "ordered m \<Longrightarrow> map_count t m = (if t \<in> set (map fst m) then 1 else 0)"
proof (induction m)
  case Nil show ?case by (simp add: map_count_eq)
next
  case (Cons e m)
  obtain k w where e: "e = (k, w)" by (cases e)
  from Cons.prems have below: "\<forall>x \<in> set m. k < fst x" and om: "ordered m"
    by (simp_all add: e ordered_Cons)
  from below have "k \<notin> set (map fst m)" by auto
  with Cons.IH [OF om] show ?case
    by (cases "t = k") (simp_all add: e map_count_eq)
qed

lemma Spline_has_keys: "ordered m \<Longrightarrow> Spline_has t m \<longleftrightarrow> t \<in> Spline_keys m"
  by (simp add: Spline_has_def map_count_ordered Spline_keys_eq)

lemma map_of_map_assign: "map_of (map_assign t v m) = (map_of m)(t \<mapsto> v)"
proof (induction m)
  case Nil show ?case by simp
next
  case (Cons e m)
  obtain k w where e: "e = (k, w)" by (cases e)
  have "\<not> t < k \<Longrightarrow> \<not> k < t \<Longrightarrow> k = t" by simp
  with Cons.IH show ?case
    by (cases "t < k"; cases "k < t") (auto simp: e)
qed

lemma map_assign_twice: "map_assign t v2 (map_assign t v1 m) = map_assign t v2 m"
  by (induction m) auto

lemma keys_map_fst_cong:
  "map fst m = map fst m' \<Longrightarrow> map fst (map_assign t v m) = map fst (map_assign t v' m')"
proof (induction m arbitrary: m')
  case Nil then show ?case by simp
next
  case (Cons e m)
  then obtain e' m'' where m': "m' = e' # m''" by (cases m') auto
  with Cons.prems have "fst e = fst e'" "map fst m = map fst m''" by simp_all
  with Cons.IH [of m''] show ?case
    by (cases e; cases e') (simp add: m')
qed

lemma ordered_map_erase: "ordered m \<Longrightarrow> ordered (map_erase t m)"
  by (simp add: map_erase_filter ordered_filter)

lemma ordered_Spline_crop: "ordered m \<Longrightarrow> ordered (Spline_crop t m)"
  by (simp add: Spline_crop_filter ordered_filter)

lemma ordered_reachable: "ordered m \<Longrightarrow> fold (\<lambda>e s. Spline_set (fst e) (snd e) s) m Spline_new = m"
proof (induction m rule: rev_induct)
  case Nil show ?case by (simp add: Spline_new_def)
next
  case (snoc e m)
  obtain k w where e: "e = (k, w)" by (cases e)
  from snoc.prems have om: "ordered m" and above: "\<forall>x \<in> set m. fst x < k"
    by (auto simp: ordered_def e sorted_wrt_append)
  have "map_assign k w m = m @ [(k, w)]" using above
    by (induction m) auto
  with snoc.IH [OF om] show ?case by (simp add: e Spline_set_def)
qed

subsection \<open>\<open>crop\<close>, \<open>erase\<close> and \<open>set\<close>\<close>

text \<open>
  Claim C7. \<open>crop(t)\<close> removes exactly the knots whose time is \<open>\<ge> t\<close> and keeps every
  strictly earlier knot with its value: the keys afterwards are the prior keys below
  \<open>t\<close>. With \<open>t\<close> at or below the smallest key the spline ends empty; with \<open>t\<close>
  above the largest key the spline is unchanged.
\<close>

theorem C7_crop:
  "ordered m \<longrightarrow>
     Spline_crop t m = filter (\<lambda>e. fst e < t) m
   \<and> ordered (Spline_crop t m)
   \<and> Spline_keys (Spline_crop t m) = {k \<in> Spline_keys m. k < t}
   \<and> (m \<noteq> [] \<and> t \<le> fst (m ! 0) \<longrightarrow> \<not> Spline_any (Spline_crop t m))
   \<and> (m \<noteq> [] \<and> fst (last m) < t \<longrightarrow> Spline_crop t m = m)"
proof
  assume om: "ordered m"
  have eq: "Spline_crop t m = filter (\<lambda>e. fst e < t) m"
    using om by (rule Spline_crop_filter)
  have keys: "Spline_keys (Spline_crop t m) = {k \<in> Spline_keys m. k < t}"
    by (auto simp: eq Spline_keys_eq)
  have low: "\<not> Spline_any (Spline_crop t m)" if "m \<noteq> []" "t \<le> fst (m ! 0)"
  proof -
    have "\<not> fst e < t" if "e \<in> set m" for e
      using ordered_first_least [OF om that] \<open>t \<le> fst (m ! 0)\<close> by simp
    then show ?thesis by (simp add: eq Spline_any_def filter_empty_conv)
  qed
  have high: "Spline_crop t m = m" if "m \<noteq> []" "fst (last m) < t"
  proof -
    have "fst e < t" if "e \<in> set m" for e
      using ordered_last_greatest [OF om that] \<open>fst (last m) < t\<close> by simp
    then show ?thesis by (simp add: eq)
  qed
  from eq keys low high ordered_Spline_crop [OF om, of t]
  show "Spline_crop t m = filter (\<lambda>e. fst e < t) m
   \<and> ordered (Spline_crop t m)
   \<and> Spline_keys (Spline_crop t m) = {k \<in> Spline_keys m. k < t}
   \<and> (m \<noteq> [] \<and> t \<le> fst (m ! 0) \<longrightarrow> \<not> Spline_any (Spline_crop t m))
   \<and> (m \<noteq> [] \<and> fst (last m) < t \<longrightarrow> Spline_crop t m = m)"
    by blast
qed

theorem C7_crop_witness:
  "ordered [(1, True), (2, False), (3, True)]
   \<and> Spline_crop 2 [(1, True), (2, False), (3, True)] = [(1, True)]
   \<and> Spline_keys (Spline_crop 2 [(1, True), (2, False), (3, True)]) = {1}
   \<and> \<not> Spline_any (Spline_crop 1 [(1, True), (2, False), (3, True)])
   \<and> Spline_crop 4 [(1, True), (2, False), (3, True)] = [(1, True), (2, False), (3, True)]"
proof -
  let ?m = "[(1, True), (2, False), (3, True)] :: bool Spline"
  have o: "ordered ?m"
    by (simp add: ordered_def)
  note at2 = C7_crop [of ?m 2, THEN mp, OF o]
  note at1 = C7_crop [of ?m 1, THEN mp, OF o]
  note at4 = C7_crop [of ?m 4, THEN mp, OF o]
  have c2: "Spline_crop 2 ?m = [(1, True)]"
    using at2 [THEN conjunct1] by simp
  have k2: "Spline_keys (Spline_crop 2 ?m) = {1}"
    by (simp add: c2 Spline_keys_def)
  have c1: "\<not> Spline_any (Spline_crop 1 ?m)"
    using at1 [THEN conjunct2, THEN conjunct2, THEN conjunct2, THEN conjunct1] by simp
  have c4: "Spline_crop 4 ?m = ?m"
    using at4 [THEN conjunct2, THEN conjunct2, THEN conjunct2, THEN conjunct2] by simp
  from o c2 k2 c1 c4 show ?thesis by (intro conjI)
qed

text \<open>
  Claim C8. \<open>erase(t)\<close> removes the knot whose time is exactly \<open>t\<close> when there is one
  (the knots at every other time stay, with their values and in their order), and
  leaves the spline unchanged when there is none.
\<close>

theorem C8_erase:
  "ordered m \<longrightarrow>
     Spline_erase t m = filter (\<lambda>e. fst e \<noteq> t) m
   \<and> ordered (Spline_erase t m)
   \<and> Spline_keys (Spline_erase t m) = Spline_keys m - {t}
   \<and> (Spline_has t m \<longrightarrow> length (Spline_erase t m) + 1 = length m)
   \<and> (\<not> Spline_has t m \<longrightarrow> Spline_erase t m = m)"
proof
  assume om: "ordered m"
  have eq: "Spline_erase t m = filter (\<lambda>e. fst e \<noteq> t) m"
    using om by (simp add: Spline_erase_def map_erase_filter)
  have keys: "Spline_keys (Spline_erase t m) = Spline_keys m - {t}"
    by (auto simp: eq Spline_keys_eq)
  have "length (filter (\<lambda>e. fst e \<noteq> t) m) + length (filter (\<lambda>e. fst e = t) m) = length m"
    using sum_length_filter_compl [of "\<lambda>e. fst e = t" m] by simp
  then have len: "length (Spline_erase t m) + map_count t m = length m"
    by (simp add: eq map_count_eq)
  have present: "length (Spline_erase t m) + 1 = length m" if "Spline_has t m"
    using that len map_count_ordered [OF om, of t] by (simp add: Spline_has_def split: if_splits)
  have absent: "Spline_erase t m = m" if "\<not> Spline_has t m"
  proof -
    from that have "t \<notin> set (map fst m)"
      using Spline_has_keys [OF om, of t] by (simp add: Spline_keys_eq)
    then have "\<forall>e \<in> set m. fst e \<noteq> t" by auto
    then show ?thesis by (simp add: eq)
  qed
  from eq keys present absent ordered_map_erase [OF om, of t]
  show "Spline_erase t m = filter (\<lambda>e. fst e \<noteq> t) m
   \<and> ordered (Spline_erase t m)
   \<and> Spline_keys (Spline_erase t m) = Spline_keys m - {t}
   \<and> (Spline_has t m \<longrightarrow> length (Spline_erase t m) + 1 = length m)
   \<and> (\<not> Spline_has t m \<longrightarrow> Spline_erase t m = m)"
    by (simp add: Spline_erase_def)
qed

theorem C8_erase_witness:
  "ordered [(1, True), (2, False), (3, True)]
   \<and> Spline_has 2 [(1, True), (2, False), (3, True)]
   \<and> Spline_erase 2 [(1, True), (2, False), (3, True)] = [(1, True), (3, True)]
   \<and> length (Spline_erase 2 [(1, True), (2, False), (3, True)]) + 1
        = length [(1 :: real, True), (2, False), (3, True)]
   \<and> \<not> Spline_has (5 / 2) [(1, True), (2, False), (3, True)]
   \<and> Spline_erase (5 / 2) [(1, True), (2, False), (3, True)] = [(1, True), (2, False), (3, True)]"
proof -
  let ?m = "[(1, True), (2, False), (3, True)] :: bool Spline"
  have o: "ordered ?m"
    by (simp add: ordered_def)
  have h: "Spline_has 2 ?m"
    by (simp add: Spline_has_def map_count_def)
  have n: "\<not> Spline_has (5 / 2) ?m"
    by (simp add: Spline_has_def map_count_def)
  note hit = C8_erase [of ?m 2, THEN mp, OF o]
  note miss = C8_erase [of ?m "5 / 2", THEN mp, OF o]
  have e2: "Spline_erase 2 ?m = [(1, True), (3, True)]"
    using hit [THEN conjunct1] by simp
  note len = hit [THEN conjunct2, THEN conjunct2, THEN conjunct2, THEN conjunct1, THEN mp, OF h]
  note e3 = miss [THEN conjunct2, THEN conjunct2, THEN conjunct2, THEN conjunct2, THEN mp, OF n]
  from o h e2 len n e3 show ?thesis by (intro conjI)
qed

text \<open>
  Claim C9. After \<open>set(t, v1)\<close> and then \<open>set(t, v2)\<close>, \<open>has(t)\<close> holds, the value
  stored at \<open>t\<close> is \<open>v2\<close>, exactly one knot has time \<open>t\<close>, the keys stay strictly
  increasing, and the state is the one \<open>set(t, v2)\<close> alone produces, so \<open>v1\<close> has
  left no trace. The knots at other times are untouched.
\<close>

theorem C9_set_overwrites:
  "ordered m \<longrightarrow>
     Spline_has t (Spline_set t v2 (Spline_set t v1 m))
   \<and> knot_value t (Spline_set t v2 (Spline_set t v1 m)) = Some v2
   \<and> map_count t (Spline_set t v2 (Spline_set t v1 m)) = 1
   \<and> ordered (Spline_set t v2 (Spline_set t v1 m))
   \<and> Spline_set t v2 (Spline_set t v1 m) = Spline_set t v2 m
   \<and> Spline_keys (Spline_set t v2 (Spline_set t v1 m)) = insert t (Spline_keys m)
   \<and> (\<forall>k. k \<noteq> t \<longrightarrow> knot_value k (Spline_set t v2 (Spline_set t v1 m)) = knot_value k m)"
proof
  assume om: "ordered m"
  let ?m' = "Spline_set t v2 (Spline_set t v1 m)"
  have same: "?m' = Spline_set t v2 m"
    by (simp add: Spline_set_def map_assign_twice)
  have o': "ordered ?m'"
    using om by (simp add: Spline_set_def ordered_map_assign)
  have keys: "Spline_keys ?m' = insert t (Spline_keys m)"
    by (simp add: same Spline_set_def Spline_keys_eq keys_map_assign del: set_map)
  have cnt: "map_count t ?m' = 1"
    using map_count_ordered [OF o', of t] keys by (simp add: Spline_keys_eq del: set_map)
  have val: "knot_value k ?m' = (if k = t then Some v2 else knot_value k m)" for k
    by (simp add: same Spline_set_def knot_value_def map_of_map_assign)
  from same o' keys cnt val
  show "Spline_has t ?m'
   \<and> knot_value t ?m' = Some v2
   \<and> map_count t ?m' = 1
   \<and> ordered ?m'
   \<and> ?m' = Spline_set t v2 m
   \<and> Spline_keys ?m' = insert t (Spline_keys m)
   \<and> (\<forall>k. k \<noteq> t \<longrightarrow> knot_value k ?m' = knot_value k m)"
    by (simp add: Spline_has_def)
qed

theorem C9_set_overwrites_witness:
  "ordered [(1, True), (3, False)]
   \<and> Spline_has 2 (Spline_set 2 False (Spline_set 2 True [(1, True), (3, False)]))
   \<and> knot_value 2 (Spline_set 2 False (Spline_set 2 True [(1, True), (3, False)])) = Some False
   \<and> map_count 2 (Spline_set 2 False (Spline_set 2 True [(1, True), (3, False)])) = 1
   \<and> knot_value 1 (Spline_set 2 False (Spline_set 2 True [(1, True), (3, False)]))
       = knot_value 1 [(1, True), (3, False)]
   \<and> Spline_set 2 False (Spline_set 2 True [(1, True), (3, False)])
       = [(1, True), (2, False), (3, False)]"
proof -
  let ?m = "[(1, True), (3, False)] :: bool Spline"
  have o: "ordered ?m"
    by (simp add: ordered_def)
  note twice = C9_set_overwrites [of ?m 2 False True, THEN mp, OF o]
  note has = twice [THEN conjunct1]
  note val = twice [THEN conjunct2, THEN conjunct1]
  note cnt = twice [THEN conjunct2, THEN conjunct2, THEN conjunct1]
  have other: "knot_value 1 (Spline_set 2 False (Spline_set 2 True ?m)) = knot_value 1 ?m"
    by (rule twice [THEN conjunct2, THEN conjunct2, THEN conjunct2, THEN conjunct2,
          THEN conjunct2, THEN conjunct2, THEN spec, THEN mp]) simp
  have ev: "Spline_set 2 False (Spline_set 2 True ?m) = [(1, True), (2, False), (3, False)]"
    by (simp add: Spline_set_def)
  from o has val cnt other ev show ?thesis by (intro conjI)
qed

subsection \<open>The step policy\<close>

lemma upper_bound_filter:
  assumes "ordered m"
  shows "take (upper_bound t m) m = filter (\<lambda>e. fst e \<le> t) m"
proof -
  have "takeWhile (\<lambda>e. \<not> t < fst e) m = filter (\<lambda>e. fst e \<le> t) m" using assms
  proof (induction m)
    case Nil show ?case by simp
  next
    case (Cons e m)
    obtain k w where e: "e = (k, w)" by (cases e)
    from Cons.prems have below: "\<forall>x \<in> set m. k < fst x" and om: "ordered m"
      by (simp_all add: e ordered_Cons)
    have "t < k \<Longrightarrow> filter (\<lambda>e. fst e \<le> t) m = []"
      using below by (auto simp: filter_empty_conv)
    with Cons.IH [OF om] show ?case by (auto simp: e)
  qed
  moreover have "take (upper_bound t m) m = takeWhile (\<lambda>e. \<not> t < fst e) m"
    unfolding upper_bound_def by (induction m) auto
  ultimately show ?thesis by simp
qed

lemma nth_upper_bound_last:
  assumes "ordered m" "0 < upper_bound t m"
  shows "m ! (upper_bound t m - 1) = last (filter (\<lambda>e. fst e \<le> t) m)"
proof -
  let ?u = "upper_bound t m"
  have le: "?u \<le> length m" by (rule upper_bound_le)
  have "last (take ?u m) = take ?u m ! (length (take ?u m) - 1)"
    using assms(2) le by (intro last_conv_nth) auto
  also have "\<dots> = m ! (?u - 1)" using assms(2) le by simp
  finally show ?thesis by (simp add: upper_bound_filter [OF assms(1)])
qed

text \<open>
  Claim C3. The boolean spline built by \<open>set(1, true)\<close> and \<open>set(3, false)\<close> gives
  \<open>at(0) = true\<close>, \<open>at(1) = true\<close>, \<open>at(2) = true\<close>, \<open>at(3) = false\<close> and
  \<open>at(10) = false\<close>. In general, on a non-empty boolean spline \<open>at(t)\<close> is the first
  knot's value before the first knot time, and from there on the value of the latest
  knot whose time is at or before \<open>t\<close>: the value changes exactly at the knot times.
\<close>

theorem C3_step_policy:
  "Spline_bool_at (Spline_set 3 False (Spline_set 1 True Spline_new)) 0 = True
   \<and> Spline_bool_at (Spline_set 3 False (Spline_set 1 True Spline_new)) 1 = True
   \<and> Spline_bool_at (Spline_set 3 False (Spline_set 1 True Spline_new)) 2 = True
   \<and> Spline_bool_at (Spline_set 3 False (Spline_set 1 True Spline_new)) 3 = False
   \<and> Spline_bool_at (Spline_set 3 False (Spline_set 1 True Spline_new)) 10 = False
   \<and> (ordered m \<and> m \<noteq> [] \<longrightarrow>
        Spline_bool_at m t =
          (if t < fst (m ! 0) then snd (m ! 0)
           else snd (last (filter (\<lambda>e. fst e \<le> t) m))))"
proof -
  have s: "Spline_set 3 False (Spline_set 1 True Spline_new) = [(1, True), (3, False)]"
    by (simp add: Spline_set_def Spline_new_def)
  have ex: "Spline_bool_at [(1, True), (3, False)] 0 = True"
    "Spline_bool_at [(1, True), (3, False)] 1 = True"
    "Spline_bool_at [(1, True), (3, False)] 2 = True"
    "Spline_bool_at [(1, True), (3, False)] 3 = False"
    "Spline_bool_at [(1, True), (3, False)] 10 = False"
    by (simp_all add: Spline_bool_at_def upper_bound_def)
  have gen: "Spline_bool_at m t =
          (if t < fst (m ! 0) then snd (m ! 0)
           else snd (last (filter (\<lambda>e. fst e \<le> t) m)))"
    if om: "ordered m" and ne: "m \<noteq> []"
  proof (cases "t < fst (m ! 0)")
    case True
    with ne show ?thesis by (simp add: Spline_bool_at_first)
  next
    case False
    from Spline_bool_at_step [OF om ne False]
      nth_upper_bound_last [OF om upper_bound_pos [OF ne False]] False
    show ?thesis by simp
  qed
  from ex gen show ?thesis unfolding s by blast
qed

theorem C3_step_policy_witness:
  "ordered [(1, True), (2, False), (4, True)]
   \<and> ([(1, True), (2, False), (4, True)] :: bool Spline) \<noteq> []
   \<and> Spline_bool_at [(1, True), (2, False), (4, True)] 3 = False
   \<and> Spline_bool_at [(1, True), (2, False), (4, True)] 2 = False
   \<and> Spline_bool_at [(1, True), (2, False), (4, True)] (3 / 2) = True
   \<and> Spline_bool_at [(1, True), (2, False), (4, True)] 4 = True"
proof -
  let ?m = "[(1, True), (2, False), (4, True)] :: bool Spline"
  have o: "ordered ?m" "?m \<noteq> []"
    by (simp_all add: ordered_def)
  note gen = C3_step_policy [THEN conjunct2, THEN conjunct2, THEN conjunct2, THEN conjunct2,
      THEN conjunct2, THEN mp]
  have a: "Spline_bool_at ?m 3 = False"
    using gen [of ?m 3] o by simp
  have b: "Spline_bool_at ?m 2 = False"
    using gen [of ?m 2] o by simp
  have c: "Spline_bool_at ?m (3 / 2) = True"
    using gen [of ?m "3 / 2"] o by simp
  have d: "Spline_bool_at ?m 4 = True"
    using gen [of ?m 4] o by simp
  from o a b c d show ?thesis by (intro conjI)
qed

subsection \<open>The bracketing pair\<close>






subsection \<open>The spherical policy\<close>









text \<open>
  Claim C10. A rotation spline with at least two knots passes through every stored knot
  \<open>(ti, qi)\<close>: at the largest knot time by hold-last; at every other knot time
  \<open>upper_bound\<close> selects the bracket that starts at \<open>ti\<close>, the local parameter is
  \<open>0\<close>, and \<open>at(ti)\<close> is \<open>slerp(qi, q', 0)\<close>, which is \<open>qi\<close> when \<open>slerp\<close> returns its
  first argument at parameter \<open>0\<close>.
\<close>

theorem C10_passes_through_knots:
  "ordered m \<and> 2 \<le> length m \<and> i < length m \<longrightarrow>
     (Suc i = length m \<longrightarrow> Spline_Quat_at Quat0 slerp m (fst (m ! i)) = snd (m ! i))
   \<and> (Suc i < length m \<longrightarrow>
        upper_bound (fst (m ! i)) m = Suc i
      \<and> Spline_Quat_at Quat0 slerp m (fst (m ! i)) = slerp (snd (m ! i)) (snd (m ! Suc i)) 0)
   \<and> ((\<forall>a b. slerp a b 0 = a) \<longrightarrow> Spline_Quat_at Quat0 slerp m (fst (m ! i)) = snd (m ! i))"
proof
  assume h: "ordered m \<and> 2 \<le> length m \<and> i < length m"
  then have om: "ordered m" and len: "2 \<le> length m" and i: "i < length m" by simp_all
  from len have ne: "m \<noteq> []" by auto
  have last: "Spline_Quat_at Quat0 slerp m (fst (m ! i)) = snd (m ! i)" if "Suc i = length m"
  proof -
    from that have "length m - 1 = i" by simp
    with ne have "last m = m ! i" by (simp add: last_conv_nth)
    with Spline_Quat_at_last [OF om ne, of "fst (m ! i)" Quat0 slerp] show ?thesis by simp
  qed
  have inner: "upper_bound (fst (m ! i)) m = Suc i
      \<and> Spline_Quat_at Quat0 slerp m (fst (m ! i)) = slerp (snd (m ! i)) (snd (m ! Suc i)) 0"
    if nxt: "Suc i < length m"
  proof -
    have ub: "upper_bound (fst (m ! i)) m = Suc i"
      by (rule upper_bound_knot [OF om i refl])
    have "fst (m ! 0) \<le> fst (m ! i)"
      using ordered_nth_le [OF om, of 0 i] i by simp
    then have lo: "\<not> fst (m ! i) < fst (m ! 0)" by simp
    have "fst (m ! i) < fst (m ! (length m - 1))"
      using ordered_nth_less [OF om, of i "length m - 1"] nxt by simp
    with ne have hi: "fst (m ! i) < fst (last m)"
      by (simp add: last_conv_nth)
    from Spline_Quat_at_interior [OF om len lo hi, of Quat0 slerp] ub
    show ?thesis by simp
  qed
  have exact: "Spline_Quat_at Quat0 slerp m (fst (m ! i)) = snd (m ! i)"
    if "\<forall>a b. slerp a b 0 = a"
    using that by (intro Spline_Quat_at_knot [OF om i]) simp
  from last inner exact
  show "(Suc i = length m \<longrightarrow> Spline_Quat_at Quat0 slerp m (fst (m ! i)) = snd (m ! i))
   \<and> (Suc i < length m \<longrightarrow>
        upper_bound (fst (m ! i)) m = Suc i
      \<and> Spline_Quat_at Quat0 slerp m (fst (m ! i)) = slerp (snd (m ! i)) (snd (m ! Suc i)) 0)
   \<and> ((\<forall>a b. slerp a b 0 = a) \<longrightarrow> Spline_Quat_at Quat0 slerp m (fst (m ! i)) = snd (m ! i))"
    by blast
qed

theorem C10_passes_through_knots_witness:
  "ordered [(1, 10 :: real), (2, 20), (4, 40)]
   \<and> 2 \<le> length [(1 :: real, 10 :: real), (2, 20), (4, 40)]
   \<and> (\<forall>a b. lerp a b 0 = a)
   \<and> Spline_Quat_at 0 lerp [(1, 10), (2, 20), (4, 40)] 1 = 10
   \<and> upper_bound 2 [(1, 10 :: real), (2, 20), (4, 40)] = Suc 1
   \<and> Spline_Quat_at 0 lerp [(1, 10), (2, 20), (4, 40)] 2 = lerp 20 40 0
   \<and> Spline_Quat_at 0 lerp [(1, 10), (2, 20), (4, 40)] 2 = 20
   \<and> Spline_Quat_at 0 (\<lambda>a b u. b) [(1, 10), (2, 20), (4, 40 :: real)] 4 = 40"
proof -
  let ?m = "[(1, 10), (2, 20), (4, 40)] :: real Spline"
  have h: "ordered ?m" "2 \<le> length ?m"
    by (simp_all add: ordered_def)
  have z: "\<forall>a b. lerp a b 0 = a"
    by (simp add: lerp_def)
  note knot = C10_passes_through_knots [of ?m _ 0 lerp, THEN mp]
  have a: "Spline_Quat_at 0 lerp ?m 1 = 10"
    using knot [of 0, THEN conjunct2, THEN conjunct2, THEN mp, OF _ z] h by simp
  have b: "upper_bound 2 ?m = Suc 1 \<and> Spline_Quat_at 0 lerp ?m 2 = lerp 20 40 0"
    using knot [of 1, THEN conjunct2, THEN conjunct1] h by simp
  have c: "Spline_Quat_at 0 lerp ?m 2 = 20"
    using knot [of 1, THEN conjunct2, THEN conjunct2, THEN mp, OF _ z] h by simp
  have d: "Spline_Quat_at 0 (\<lambda>a b u. b) ?m 4 = 40"
    using C10_passes_through_knots [of ?m 2 0 "\<lambda>a b u. b", THEN mp, THEN conjunct1] h by simp
  from h z a b [THEN conjunct1] b [THEN conjunct2] c d show ?thesis by (intro conjI)
qed

subsection \<open>\<open>Splines\<close>: fan-out of \<open>at\<close>\<close>

lemma channels_nonempty: "channels s \<noteq> []"
  by (cases s) simp_all

lemma length_Splines_at: "length (Splines_at ats s t) = length (channels s)"
  by (induction s arbitrary: ats) simp_all

lemma nth_Splines_at:
  "i < length (channels s) \<Longrightarrow> Splines_at ats s t ! i = ats i (channels s ! i) t"
proof (induction s arbitrary: ats i)
  case (Splines1 h)
  then show ?case by simp
next
  case (SplinesN h tl)
  show ?case
  proof (cases i)
    case 0
    then show ?thesis by simp
  next
    case (Suc j)
    with SplinesN.prems have "j < length (channels tl)" by simp
    from SplinesN.IH [OF this, of "\<lambda>i. ats (Suc i)"] Suc show ?thesis by simp
  qed
qed

lemma channels_Splines_set:
  "Splines_set t vs s = Some s' \<Longrightarrow>
     length vs = length (channels s) \<and> channels s' = map2 (Spline_set t) vs (channels s)"
proof (induction t vs s arbitrary: s' rule: Splines_set.induct)
  case (1 t arg head)
  then show ?case by auto
next
  case (2 t arg args head tail)
  then show ?case by (auto split: option.splits)
qed simp_all

lemma Splines_set_defined:
  "length vs = length (channels s) \<Longrightarrow> \<exists>s'. Splines_set t vs s = Some s'"
proof (induction t vs s rule: Splines_set.induct)
  case (1 t arg head)
  then show ?case by simp
next
  case (2 t arg args head tail)
  then show ?case by (auto split: option.splits)
qed (use channels_nonempty in auto)

lemma channels_Splines_erase: "channels (Splines_erase t s) = map (Spline_erase t) (channels s)"
  by (induction s) simp_all

lemma channels_Splines_clear: "channels (Splines_clear s) = map Spline_clear (channels s)"
  by (induction s) simp_all

lemma channels_Splines_crop: "channels (Splines_crop t s) = map (Spline_crop t) (channels s)"
  by (induction s) simp_all

lemma channels_Splines_new: "channels (Splines_new n) = replicate (Suc n) Spline_new"
  by (induction n) simp_all

lemma Splines_keys_Union: "Splines_keys s = (\<Union>c \<in> set (channels s). Spline_keys c)"
  by (induction s) (auto simp: Let_def)


lemma map_assign_mem: "(t, v) \<in> set (map_assign t v m)"
proof (induction m)
  case Nil show ?case by simp
next
  case (Cons e m)
  obtain k w where e: "e = (k, w)" by (cases e)
  have "\<not> t < k \<Longrightarrow> \<not> k < t \<Longrightarrow> k = t" by simp
  with Cons.IH show ?case
    by (cases "t < k"; cases "k < t") (auto simp: e)
qed

lemma Spline_bool_at_after_set:
  assumes "ordered m"
  shows "Spline_bool_at (Spline_set t v m) t = v"
proof -
  let ?m = "Spline_set t v m"
  have o: "ordered ?m" using assms by (simp add: Spline_set_def ordered_map_assign)
  have "(t, v) \<in> set ?m" by (simp add: Spline_set_def map_assign_mem)
  then obtain i where i: "i < length ?m" "?m ! i = (t, v)"
    by (auto simp: in_set_conv_nth)
  from Spline_bool_at_knot [OF o i(1)] i(2) show ?thesis by simp
qed

lemma Spline_Quat_at_after_set:
  assumes "ordered m" "\<And>b. slerp v b 0 = v"
  shows "Spline_Quat_at Quat0 slerp (Spline_set t v m) t = v"
proof -
  let ?m = "Spline_set t v m"
  have o: "ordered ?m" using assms(1) by (simp add: Spline_set_def ordered_map_assign)
  have "(t, v) \<in> set ?m" by (simp add: Spline_set_def map_assign_mem)
  then obtain i where i: "i < length ?m" "?m ! i = (t, v)"
    by (auto simp: in_set_conv_nth)
  have "Spline_Quat_at Quat0 slerp ?m (fst (?m ! i)) = snd (?m ! i)"
    using assms(2) i(2) by (intro Spline_Quat_at_knot [OF o i(1)]) simp
  with i(2) show ?thesis by simp
qed

lemma Splines_at_after_set:
  assumes set: "Splines_set t vs s = Some s'"
    and hit: "\<And>i. i < length vs \<Longrightarrow> ats i (Spline_set t (vs ! i) (channels s ! i)) t = vs ! i"
  shows "Splines_at ats s' t = vs"
proof (rule nth_equalityI)
  from channels_Splines_set [OF set]
  have len: "length vs = length (channels s)"
    and ch: "channels s' = map2 (Spline_set t) vs (channels s)"
    by simp_all
  from ch len have len': "length (channels s') = length vs" by simp
  then show "length (Splines_at ats s' t) = length vs"
    by (simp add: length_Splines_at)
  fix i assume "i < length (Splines_at ats s' t)"
  then have i: "i < length vs" by (simp add: length_Splines_at len')
  with len' have "Splines_at ats s' t ! i = ats i (channels s' ! i) t"
    by (simp add: nth_Splines_at)
  also from i len have "channels s' ! i = Spline_set t (vs ! i) (channels s ! i)"
    by (simp add: ch)
  finally show "Splines_at ats s' t ! i = vs ! i"
    using hit [OF i] by simp
qed

text \<open>
  Claim C5. \<open>Splines::at(t)\<close> returns the tuple, in channel order, whose \<open>i\<close>-th
  component is the \<open>at(t)\<close> of channel \<open>i\<close> on that channel's own knots. After
  \<open>set(t, v0, ..., vN-1)\<close>, \<open>at(t)\<close> returns exactly \<open>(v0, ..., vN-1)\<close> when every
  channel's \<open>at\<close> returns the value just stored at the knot \<open>t\<close>. That condition holds
  for every boolean channel, and for every rotation channel when \<open>slerp\<close> returns its
  first argument at parameter \<open>0\<close>. A \<open>set\<close> with one value per channel always
  succeeds.
\<close>

theorem C5_splines_at:
  "length (Splines_at ats s t) = length (channels s)
   \<and> (\<forall>i < length (channels s). Splines_at ats s t ! i = ats i (channels s ! i) t)
   \<and> (length vs = length (channels s) \<longrightarrow> (\<exists>s1. Splines_set t vs s = Some s1))
   \<and> (Splines_set t vs s = Some s' \<longrightarrow>
        length vs = length (channels s)
      \<and> ((\<forall>i < length vs. ats i (Spline_set t (vs ! i) (channels s ! i)) t = vs ! i) \<longrightarrow>
           Splines_at ats s' t = vs))
   \<and> (Splines_set t bs sb = Some sb' \<and> (\<forall>c \<in> set (channels sb). ordered c) \<longrightarrow>
        Splines_at (\<lambda>i. Spline_bool_at) sb' t = bs)
   \<and> (Splines_set t qs sq = Some sq' \<and> (\<forall>c \<in> set (channels sq). ordered c)
        \<and> (\<forall>a b. slerp a b 0 = a) \<longrightarrow>
        Splines_at (\<lambda>i. Spline_Quat_at Quat0 slerp) sq' t = qs)"
proof (intro conjI impI allI)
  show "length (Splines_at ats s t) = length (channels s)"
    by (rule length_Splines_at)
next
  fix i assume "i < length (channels s)"
  then show "Splines_at ats s t ! i = ats i (channels s ! i) t"
    by (rule nth_Splines_at)
next
  assume "length vs = length (channels s)"
  then show "\<exists>s1. Splines_set t vs s = Some s1"
    by (rule Splines_set_defined)
next
  assume "Splines_set t vs s = Some s'"
  then show "length vs = length (channels s)"
    by (simp add: channels_Splines_set)
next
  assume set: "Splines_set t vs s = Some s'"
    and hit: "\<forall>i < length vs. ats i (Spline_set t (vs ! i) (channels s ! i)) t = vs ! i"
  show "Splines_at ats s' t = vs"
  proof (rule Splines_at_after_set [OF set])
    fix i assume "i < length vs"
    with hit show "ats i (Spline_set t (vs ! i) (channels s ! i)) t = vs ! i" by blast
  qed
next
  assume h: "Splines_set t bs sb = Some sb' \<and> (\<forall>c \<in> set (channels sb). ordered c)"
  then have len: "length bs = length (channels sb)"
    using channels_Splines_set [of t bs sb sb'] by simp
  show "Splines_at (\<lambda>i. Spline_bool_at) sb' t = bs"
  proof (rule Splines_at_after_set)
    from h show "Splines_set t bs sb = Some sb'" by simp
    fix i assume "i < length bs"
    with len h have "ordered (channels sb ! i)" by simp
    then show "Spline_bool_at (Spline_set t (bs ! i) (channels sb ! i)) t = bs ! i"
      by (rule Spline_bool_at_after_set)
  qed
next
  assume h: "Splines_set t qs sq = Some sq' \<and> (\<forall>c \<in> set (channels sq). ordered c)
        \<and> (\<forall>a b. slerp a b 0 = a)"
  then have len: "length qs = length (channels sq)"
    using channels_Splines_set [of t qs sq sq'] by simp
  show "Splines_at (\<lambda>i. Spline_Quat_at Quat0 slerp) sq' t = qs"
  proof (rule Splines_at_after_set)
    from h show "Splines_set t qs sq = Some sq'" by simp
    fix i assume "i < length qs"
    with len h have "ordered (channels sq ! i)" by simp
    with h show "Spline_Quat_at Quat0 slerp (Spline_set t (qs ! i) (channels sq ! i)) t = qs ! i"
      by (intro Spline_Quat_at_after_set) simp_all
  qed
qed

theorem C5_splines_at_witness:
  "length [True, False] = length (channels (Splines_new 1 :: bool Splines))
   \<and> Splines_set 2 [True, False] (Splines_new 1) = Some (SplinesN [(2, True)] (Splines1 [(2, False)]))
   \<and> channels (Splines_new 1 :: bool Splines) = [[], []]
   \<and> ordered ([] :: bool Spline)
   \<and> Splines_at (\<lambda>i. Spline_bool_at) (SplinesN [(2, True)] (Splines1 [(2, False)])) 2 = [True, False]
   \<and> 1 < length (channels (SplinesN [(1, True), (3, False)] (Splines1 [(2, True)])))
   \<and> Splines_at (\<lambda>i. Spline_bool_at) (SplinesN [(1, True), (3, False)] (Splines1 [(2, True)])) (5 / 2) ! 1
        = Spline_bool_at [(2, True)] (5 / 2)
   \<and> Splines_set 3 [7, 9] (SplinesN [(1, 10)] (Splines1 [(1, 20 :: real)]))
        = Some (SplinesN [(1, 10), (3, 7)] (Splines1 [(1, 20), (3, 9)]))
   \<and> ordered [(1, 10 :: real)] \<and> ordered [(1, 20 :: real)]
   \<and> (\<forall>a b. lerp a b 0 = a)
   \<and> Splines_at (\<lambda>i. Spline_Quat_at 0 lerp) (SplinesN [(1, 10), (3, 7)] (Splines1 [(1, 20), (3, 9)])) 3
        = [7, 9]"
proof -
  let ?s = "Splines_new 1 :: bool Splines"
  let ?s' = "SplinesN [(2, True)] (Splines1 [(2, False)]) :: bool Splines"
  let ?r = "SplinesN [(1, True), (3, False)] (Splines1 [(2, True)]) :: bool Splines"
  let ?q = "SplinesN [(1, 10)] (Splines1 [(1, 20)]) :: real Splines"
  let ?q' = "SplinesN [(1, 10), (3, 7)] (Splines1 [(1, 20), (3, 9)]) :: real Splines"
  have ch: "channels ?s = [[], []]"
    by (simp add: Spline_new_def)
  then have arity: "length [True, False] = length (channels ?s)"
    by simp
  from C5_splines_at [where vs = "[True, False]" and s = ?s and t = 2,
      THEN conjunct2, THEN conjunct2, THEN conjunct1, THEN mp, OF arity]
  obtain s1 where s1: "Splines_set 2 [True, False] ?s = Some s1" ..
  have "Splines_set 2 [True, False] ?s = Some ?s'"
    by (simp add: Spline_set_def Spline_new_def)
  with s1 have set: "Splines_set 2 [True, False] ?s = Some ?s'" by simp
  have o: "ordered ([] :: bool Spline)"
    by (simp add: ordered_def)
  from ch o have all: "\<forall>c \<in> set (channels ?s). ordered c"
    by simp
  note after_set = C5_splines_at [where t = 2 and bs = "[True, False]" and sb = ?s and sb' = ?s',
      THEN conjunct2, THEN conjunct2, THEN conjunct2, THEN conjunct2, THEN conjunct1, THEN mp]
  have at: "Splines_at (\<lambda>i. Spline_bool_at) ?s' 2 = [True, False]"
    by (rule after_set) (intro conjI set all)
  have len: "1 < length (channels ?r)"
    by simp
  note component = C5_splines_at [where ats = "\<lambda>i. Spline_bool_at" and s = ?r and t = "5 / 2",
      THEN conjunct2, THEN conjunct1, THEN spec, THEN mp, OF len]
  have ch1: "channels ?r ! 1 = [(2, True)]"
    by simp
  have nth: "Splines_at (\<lambda>i. Spline_bool_at) ?r (5 / 2) ! 1 = Spline_bool_at [(2, True)] (5 / 2)"
    by (simp only: component ch1)
  have setq: "Splines_set 3 [7, 9] ?q = Some ?q'"
    by (simp add: Spline_set_def)
  have oq: "ordered [(1, 10 :: real)]" "ordered [(1, 20 :: real)]"
    by (simp_all add: ordered_def)
  then have allq: "\<forall>c \<in> set (channels ?q). ordered c"
    by simp
  have z: "\<forall>a b. lerp a b 0 = a"
    by (simp add: lerp_def)
  note after_setq = C5_splines_at [where t = 3 and qs = "[7, 9]" and sq = ?q and sq' = ?q'
      and slerp = lerp and ?Quat0.0 = 0,
      THEN conjunct2, THEN conjunct2, THEN conjunct2, THEN conjunct2, THEN conjunct2, THEN mp]
  have atq: "Splines_at (\<lambda>i. Spline_Quat_at 0 lerp) ?q' 3 = [7, 9]"
    by (rule after_setq) (intro conjI setq allq z)
  from arity set ch o at len nth setq oq z atq show ?thesis by (intro conjI)
qed

subsection \<open>\<open>Splines\<close>: the channels share their knot times\<close>

lemma map_fst_map_erase_cong:
  "map fst m = map fst m' \<Longrightarrow> map fst (map_erase t m) = map fst (map_erase t m')"
proof (induction m arbitrary: m')
  case Nil then show ?case by simp
next
  case (Cons e m)
  then obtain e' m'' where m': "m' = e' # m''" by (cases m') auto
  with Cons.prems have "fst e = fst e'" "map fst m = map fst m''" by simp_all
  with Cons.IH [of m''] show ?case
    by (cases e; cases e') (simp add: m')
qed

lemma map_fst_Spline_crop: "map fst (Spline_crop t m) = takeWhile (\<lambda>k. k < t) (map fst m)"
  by (simp add: Spline_crop_def erase_range_def lower_bound_takeWhile takeWhile_map comp_def)

lemma same_times_new: "same_times (Splines_new n)"
  by (simp add: same_times_def channels_Splines_new)

lemma same_times_set:
  assumes "same_times s" "Splines_set t vs s = Some s'"
  shows "same_times s'"
proof -
  from channels_Splines_set [OF assms(2)]
  have len: "length vs = length (channels s)"
    and ch: "channels s' = map2 (Spline_set t) vs (channels s)"
    by simp_all
  have "map fst c = map fst c'" if "c \<in> set (channels s')" "c' \<in> set (channels s')" for c c'
  proof -
    have pick: "\<exists>v d. x = Spline_set t v d \<and> d \<in> set (channels s)"
      if "x \<in> set (channels s')" for x
    proof -
      from that obtain i where i: "i < length (channels s')" "channels s' ! i = x"
        by (auto simp: in_set_conv_nth)
      from i(1) len have b: "i < length vs" "i < length (channels s)"
        by (simp_all add: ch)
      with i(2) have "x = Spline_set t (vs ! i) (channels s ! i)"
        by (simp add: ch)
      moreover from b(2) have "channels s ! i \<in> set (channels s)"
        by (rule nth_mem)
      ultimately show ?thesis by blast
    qed
    from pick [OF that(1)] obtain v d where c: "c = Spline_set t v d" "d \<in> set (channels s)"
      by blast
    from pick [OF that(2)] obtain v' d' where c': "c' = Spline_set t v' d'" "d' \<in> set (channels s)"
      by blast
    from assms(1) c(2) c'(2) have "map fst d = map fst d'"
      unfolding same_times_def by blast
    then show ?thesis
      by (simp add: c(1) c'(1) Spline_set_def keys_map_fst_cong)
  qed
  then show ?thesis unfolding same_times_def by blast
qed

lemma same_times_map:
  assumes st: "same_times s" and ch: "channels s' = map f (channels s)"
    and cong: "\<And>c c'. map fst c = map fst c' \<Longrightarrow> map fst (f c) = map fst (f c')"
  shows "same_times s'"
  unfolding same_times_def
proof (intro ballI)
  fix x y assume "x \<in> set (channels s')" "y \<in> set (channels s')"
  then obtain c c' where c: "x = f c" "c \<in> set (channels s)" "y = f c'" "c' \<in> set (channels s)"
    unfolding ch by auto
  from st c(2,4) have "map fst c = map fst c'"
    unfolding same_times_def by blast
  then have "map fst (f c) = map fst (f c')" by (rule cong)
  then show "map fst x = map fst y" by (simp only: c(1,3))
qed

lemma same_times_erase: "same_times s \<Longrightarrow> same_times (Splines_erase t s)"
proof (erule same_times_map [where f = "Spline_erase t"])
  show "channels (Splines_erase t s) = map (Spline_erase t) (channels s)"
    by (rule channels_Splines_erase)
  show "map fst (Spline_erase t c) = map fst (Spline_erase t c')" if "map fst c = map fst c'" for c c' :: "'a Spline"
    unfolding Spline_erase_def using that by (rule map_fst_map_erase_cong)
qed

lemma same_times_clear: "same_times s \<Longrightarrow> same_times (Splines_clear s)"
proof (erule same_times_map [where f = Spline_clear])
  show "channels (Splines_clear s) = map Spline_clear (channels s)"
    by (rule channels_Splines_clear)
  show "map fst (Spline_clear c) = map fst (Spline_clear c')" for c c' :: "'a Spline"
    by (simp add: Spline_clear_def)
qed

lemma same_times_crop: "same_times s \<Longrightarrow> same_times (Splines_crop t s)"
proof (erule same_times_map [where f = "Spline_crop t"])
  show "channels (Splines_crop t s) = map (Spline_crop t) (channels s)"
    by (rule channels_Splines_crop)
  show "map fst (Spline_crop t c) = map fst (Spline_crop t c')" if "map fst c = map fst c'" for c c' :: "'a Spline"
    using that by (simp only: map_fst_Spline_crop)
qed

lemma same_times_apply_call:
  "same_times s \<Longrightarrow> apply_call c s = Some s' \<Longrightarrow> same_times s'"
proof (cases c)
  case (Set t args)
  assume "same_times s" "apply_call c s = Some s'"
  with Set show ?thesis by (auto intro: same_times_set)
next
  case (Erase t)
  assume "same_times s" "apply_call c s = Some s'"
  with Erase same_times_erase [of s t] show ?thesis by auto
next
  case Clear
  assume "same_times s" "apply_call c s = Some s'"
  with Clear same_times_clear [of s] show ?thesis by auto
next
  case (Crop t)
  assume "same_times s" "apply_call c s = Some s'"
  with Crop same_times_crop [of s t] show ?thesis by auto
qed

lemma same_times_run: "same_times s \<Longrightarrow> run cs s = Some s' \<Longrightarrow> same_times s'"
proof (induction cs arbitrary: s)
  case Nil
  then show ?case by simp
next
  case (Cons c cs)
  from Cons.prems(2) obtain s1 where s1: "apply_call c s = Some s1" "run cs s1 = Some s'"
    by (auto split: option.splits)
  from same_times_apply_call [OF Cons.prems(1) s1(1)] have "same_times s1" .
  from Cons.IH [OF this s1(2)] show ?case .
qed

lemma same_times_keys:
  assumes "same_times s" "c \<in> set (channels s)"
  shows "Spline_keys c = Splines_keys s"
proof -
  have "Spline_keys c' = Spline_keys c" if "c' \<in> set (channels s)" for c'
  proof -
    from assms that have "map fst c' = map fst c"
      unfolding same_times_def by blast
    then show ?thesis by (simp only: Spline_keys_eq)
  qed
  with assms(2) show ?thesis
    unfolding Splines_keys_Union by blast
qed

lemma map_count_keys: "map_count k c = length (filter (\<lambda>x. x = k) (map fst c))"
  by (simp add: map_count_eq filter_map comp_def)

lemma length_channels_apply_call:
  "apply_call c s = Some s' \<Longrightarrow> length (channels s') = length (channels s)"
proof (cases c)
  case (Set t args)
  assume "apply_call c s = Some s'"
  with Set have "Splines_set t args s = Some s'" by simp
  from channels_Splines_set [OF this] show ?thesis by simp
next
  case (Erase t)
  assume "apply_call c s = Some s'"
  with Erase show ?thesis by (auto simp: channels_Splines_erase)
next
  case Clear
  assume "apply_call c s = Some s'"
  with Clear show ?thesis by (auto simp: channels_Splines_clear)
next
  case (Crop t)
  assume "apply_call c s = Some s'"
  with Crop show ?thesis by (auto simp: channels_Splines_crop)
qed

lemma apply_call_defined:
  "accepted (length (channels s)) c \<Longrightarrow> \<exists>s'. apply_call c s = Some s'"
  by (cases c) (simp_all add: Splines_set_defined)

lemma run_defined:
  "list_all (accepted (length (channels s))) cs \<Longrightarrow> \<exists>s'. run cs s = Some s'"
proof (induction cs arbitrary: s)
  case Nil
  show ?case by simp
next
  case (Cons c cs)
  from Cons.prems have c: "accepted (length (channels s)) c"
    and cs: "list_all (accepted (length (channels s))) cs"
    by simp_all
  from apply_call_defined [OF c] obtain s1 where s1: "apply_call c s = Some s1" ..
  from length_channels_apply_call [OF s1] cs
  have "list_all (accepted (length (channels s1))) cs" by simp
  from Cons.IH [OF this] s1 show ?case by simp
qed

text \<open>
  Claim C6. Starting from a default-constructed \<open>Splines\<close> and after any sequence of
  calls of \<open>set\<close>, \<open>erase\<close>, \<open>clear\<close> and \<open>crop\<close>, all channels have the same set
  of knot times, \<open>keys()\<close> equals the key set of every single channel, and no knot time
  is present in one channel and absent from another. Every sequence of calls the compiler
  accepts runs to a final state.
\<close>

theorem C6_channels_share_keys:
  "(list_all (accepted (Suc n)) calls \<longrightarrow> (\<exists>s1. run calls (Splines_new n) = Some s1))
   \<and> (run calls (Splines_new n) = Some s \<longrightarrow>
       (\<forall>c \<in> set (channels s). Spline_keys c = Splines_keys s)
     \<and> (\<forall>c \<in> set (channels s). \<forall>c' \<in> set (channels s). Spline_keys c = Spline_keys c')
     \<and> \<not> (\<exists>c \<in> set (channels s). \<exists>c' \<in> set (channels s).
            \<exists>k. Spline_has k c \<and> \<not> Spline_has k c'))"
proof (rule conjI; rule impI)
  assume "list_all (accepted (Suc n)) calls"
  then have "list_all (accepted (length (channels (Splines_new n :: 'a Splines)))) calls"
    by (simp add: channels_Splines_new)
  then show "\<exists>s1. run calls (Splines_new n) = Some s1"
    by (rule run_defined)
next
  assume r: "run calls (Splines_new n) = Some s"
  have st: "same_times s"
    using same_times_new r by (rule same_times_run)
  have keys: "Spline_keys c = Splines_keys s" if "c \<in> set (channels s)" for c
    using st that by (rule same_times_keys)
  have has: "Spline_has k c = Spline_has k c'"
    if "c \<in> set (channels s)" "c' \<in> set (channels s)" for c c' k
  proof -
    from st that have "map fst c = map fst c'"
      unfolding same_times_def by blast
    then have "map_count k c = map_count k c'"
      by (simp only: map_count_keys)
    then show ?thesis by (simp only: Spline_has_def)
  qed
  show "(\<forall>c \<in> set (channels s). Spline_keys c = Splines_keys s)
   \<and> (\<forall>c \<in> set (channels s). \<forall>c' \<in> set (channels s). Spline_keys c = Spline_keys c')
   \<and> \<not> (\<exists>c \<in> set (channels s). \<exists>c' \<in> set (channels s).
          \<exists>k. Spline_has k c \<and> \<not> Spline_has k c')"
  proof (intro conjI ballI notI)
    fix c assume "c \<in> set (channels s)"
    then show "Spline_keys c = Splines_keys s" by (rule keys)
  next
    fix c c' assume "c \<in> set (channels s)" "c' \<in> set (channels s)"
    then show "Spline_keys c = Spline_keys c'" by (simp only: keys)
  next
    assume "\<exists>c \<in> set (channels s). \<exists>c' \<in> set (channels s).
          \<exists>k. Spline_has k c \<and> \<not> Spline_has k c'"
    then obtain c c' k where "c \<in> set (channels s)" "c' \<in> set (channels s)"
      "Spline_has k c" "\<not> Spline_has k c'"
      by blast
    with has [of c c' k] show False by simp
  qed
qed

theorem C6_channels_share_keys_witness:
  "list_all (accepted (Suc 1)) [Set 1 [True, False], Set 2 [False, True], Erase 1, Crop 5]
   \<and> run [Set 1 [True, False], Set 2 [False, True], Erase 1, Crop 5] (Splines_new 1)
     = Some (SplinesN [(2, False)] (Splines1 [(2, True)]))
   \<and> Spline_keys [(2, False)] = Splines_keys (SplinesN [(2, False)] (Splines1 [(2, True)]))
   \<and> Spline_keys [(2, True)] = Splines_keys (SplinesN [(2, False)] (Splines1 [(2, True)]))
   \<and> Spline_keys [(2, False)] = Spline_keys [(2, True)]"
proof -
  let ?calls = "[Set 1 [True, False], Set 2 [False, True], Erase 1, Crop 5]"
  let ?s = "SplinesN [(2, False)] (Splines1 [(2, True)]) :: bool Splines"
  have acc: "list_all (accepted (Suc 1)) ?calls"
    by simp
  from C6_channels_share_keys [of 1 ?calls, THEN conjunct1, THEN mp, OF acc]
  obtain s1 where s1: "run ?calls (Splines_new 1) = Some s1" ..
  have "run ?calls (Splines_new 1) = Some ?s"
    by (simp add: Spline_new_def Spline_set_def Spline_erase_def Spline_crop_def
        lower_bound_def erase_range_def)
  with s1 have r: "run ?calls (Splines_new 1) = Some ?s" by simp
  note shared = C6_channels_share_keys [of 1 ?calls ?s, THEN conjunct2, THEN mp, OF r]
  have m: "[(2, False)] \<in> set (channels ?s)" "[(2, True)] \<in> set (channels ?s)"
    by simp_all
  from shared [THEN conjunct1, THEN bspec, OF m(1)]
  have a: "Spline_keys [(2, False)] = Splines_keys ?s" .
  from shared [THEN conjunct1, THEN bspec, OF m(2)]
  have b: "Spline_keys [(2, True)] = Splines_keys ?s" .
  from shared [THEN conjunct2, THEN conjunct1, THEN bspec, OF m(1), THEN bspec, OF m(2)]
  have c: "Spline_keys [(2, False)] = Spline_keys [(2, True)]" .
  from acc r a b c show ?thesis by (intro conjI)
qed

end
